theory Spec2Isabelle
  imports Complex_Main
begin

section \<open>Python built-ins used by the client\<close>

text \<open>
  The client (\<^verbatim>\<open>mtx_client.py\<close>) is Python 3. Text is modelled as \<^typ>\<open>string\<close>
  (the protocol is ASCII, so \<^verbatim>\<open>encode\<close> and \<^verbatim>\<open>decode\<close> are the identity and
  bytes are strings too), Python's unbounded integers as \<^typ>\<open>int\<close>, every exception
  as a value of the datatype \<open>exn\<close>, and a computation that may raise as a sum with the
  exception on the left.
\<close>

text \<open>A Python float is kept as the decimal number its text denotes: sign, coefficient
  and power of ten, the coefficient without trailing zeros. This is what CPython holds
  for up to 15 significant digits inside the range of normal doubles; the rounding to
  the nearest double beyond that is not modelled.\<close>

datatype pyfloat = Finite bool nat int | Infinity bool | NaN

text \<open>The values a response field can be coerced to.\<close>

datatype "value" = Integer int | Float pyfloat | Boolean bool | Text string

text \<open>The message of a TroughError: the raw response line, or, for
  \<^verbatim>\<open>get\<close> and \<^verbatim>\<open>set\<close>, the text
  \<^verbatim>\<open>"Property '%s' returned unexpected results:\n%s" % (prop, result)\<close>, kept as
  its two arguments.\<close>

datatype message = Raw string | UnexpectedResults string "value list"

text \<open>The exceptions. \<open>ConnectionError\<close> is what the socket layer raises when a
  connection fails; no function of the client raises it.\<close>

datatype exn =
    TroughError message
  | PollDataError message "value list list"
  | ValueError
  | KeyError
  | IndexError
  | TypeError
  | AttributeError
  | ConnectionError

text \<open>\<^verbatim>\<open>xs[i]\<close> on a list: a negative index counts from the end, an index outside
  \<open>-len \<dots> len-1\<close> raises IndexError.\<close>

definition py_getitem :: "'a list \<Rightarrow> int \<Rightarrow> exn + 'a" where
  "py_getitem xs i =
     (if 0 \<le> i \<and> i < int (length xs) then Inr (xs ! nat i)
      else if - int (length xs) \<le> i \<and> i < 0 then Inr (xs ! nat (i + int (length xs)))
      else Inl IndexError)"

text \<open>\<^verbatim>\<open>str(i)\<close> for an integer: the decimal digits, with a leading minus sign
  for a negative number.\<close>

definition digit_char :: "nat \<Rightarrow> char" where
  "digit_char d = ''0123456789'' ! d"

fun str_nat :: "nat \<Rightarrow> string" where
  "str_nat n = (if n < 10 then [digit_char n] else str_nat (n div 10) @ [digit_char (n mod 10)])"

declare str_nat.simps [simp del]

definition str_int :: "int \<Rightarrow> string" where
  "str_int i = (if i < 0 then CHR ''-'' # str_nat (nat (- i)) else str_nat (nat i))"

text \<open>The characters below code point 256 for which \<^verbatim>\<open>str.isspace\<close> holds.\<close>

definition is_space :: "char \<Rightarrow> bool" where
  "is_space c \<longleftrightarrow>
     c \<in> set [CHR 0x09, CHR 0x0A, CHR 0x0B, CHR 0x0C, CHR 0x0D, CHR 0x1C, CHR 0x1D,
              CHR 0x1E, CHR 0x1F, CHR 0x20, CHR 0x85, CHR 0xA0]"

definition is_digit :: "char \<Rightarrow> bool" where
  "is_digit c \<longleftrightarrow> c \<in> set ''0123456789''"

definition digit_val :: "char \<Rightarrow> nat" where
  "digit_val c =
     (case map_of (zip ''0123456789'' [0, 1, 2, 3, 4, 5, 6, 7, 8, 9]) c of
        Some d \<Rightarrow> d
      | None \<Rightarrow> 0)"

text \<open>\<^verbatim>\<open>s.strip()\<close>, \<^verbatim>\<open>s.startswith(p)\<close>, \<^verbatim>\<open>s.endswith(p)\<close>,
  \<^verbatim>\<open>sep.join(xs)\<close> and \<^verbatim>\<open>s.lower()\<close> (on the ASCII letters).\<close>

definition strip :: "string \<Rightarrow> string" where
  "strip s = rev (dropWhile is_space (rev (dropWhile is_space s)))"

definition startswith :: "string \<Rightarrow> string \<Rightarrow> bool" where
  "startswith s p \<longleftrightarrow> take (length p) s = p"

definition endswith :: "string \<Rightarrow> string \<Rightarrow> bool" where
  "endswith s p \<longleftrightarrow> length p \<le> length s \<and> drop (length s - length p) s = p"

fun join :: "string \<Rightarrow> string list \<Rightarrow> string" where
  "join sep [] = []"
| "join sep [x] = x"
| "join sep (x # y # ys) = x @ sep @ join sep (y # ys)"

definition lower_char :: "char \<Rightarrow> char" where
  "lower_char c =
     (case map_of (zip ''ABCDEFGHIJKLMNOPQRSTUVWXYZ'' ''abcdefghijklmnopqrstuvwxyz'') c of
        Some l \<Rightarrow> l
      | None \<Rightarrow> c)"

definition lower :: "string \<Rightarrow> string" where
  "lower s = map lower_char s"

text \<open>\<^verbatim>\<open>s.split(None)\<close>: runs of whitespace separate the fields, and no field is
  empty. \<open>cur\<close> is the field being read.\<close>

fun split_ws_from :: "string \<Rightarrow> string \<Rightarrow> string list" where
  "split_ws_from cur [] = (if cur = [] then [] else [cur])"
| "split_ws_from cur (c # cs) =
     (if is_space c then (if cur = [] then split_ws_from [] cs else cur # split_ws_from [] cs)
      else split_ws_from (cur @ [c]) cs)"

definition split_ws :: "string \<Rightarrow> string list" where
  "split_ws s = split_ws_from [] s"

text \<open>\<^verbatim>\<open>s.split(":", 1)\<close>: at most one split, at the first colon.\<close>

definition split_colon_once :: "string \<Rightarrow> string list" where
  "split_colon_once s =
     (if CHR '':'' \<in> set s
      then [takeWhile (\<lambda>c. c \<noteq> CHR '':'') s, tl (dropWhile (\<lambda>c. c \<noteq> CHR '':'') s)]
      else [s])"

subsection \<open>Reading numbers: \<^verbatim>\<open>int(s)\<close>, \<^verbatim>\<open>float(s)\<close> and \<^verbatim>\<open>str(x)\<close>\<close>

text \<open>An underscore in a numeric text must stand between two digits; the underscores
  are dropped before the number is read. \<open>prev\<close> is the character before.\<close>

fun drop_underscores :: "char \<Rightarrow> string \<Rightarrow> string option" where
  "drop_underscores prev [] = (if prev = CHR ''_'' then None else Some [])"
| "drop_underscores prev (c # cs) =
     (if c = CHR ''_'' then (if is_digit prev then drop_underscores c cs else None)
      else if prev = CHR ''_'' \<and> \<not> is_digit c then None
      else map_option ((#) c) (drop_underscores c cs))"

definition split_sign :: "string \<Rightarrow> bool \<times> string" where
  "split_sign s =
     (case s of
        [] \<Rightarrow> (False, [])
      | c # cs \<Rightarrow> if c = CHR ''-'' then (True, cs) else if c = CHR ''+'' then (False, cs)
                 else (False, s))"

definition nat_of_digits :: "string \<Rightarrow> nat" where
  "nat_of_digits ds = foldl (\<lambda>a c. 10 * a + digit_val c) 0 ds"

definition signed :: "bool \<Rightarrow> nat \<Rightarrow> int" where
  "signed neg n = (if neg then - int n else int n)"

text \<open>\<^verbatim>\<open>int(s)\<close> in base 10: surrounding whitespace, an optional sign, at least one
  digit. Anything else raises ValueError.\<close>

definition py_int :: "string \<Rightarrow> exn + int" where
  "py_int s =
     (case drop_underscores (CHR 0x00) s of
        None \<Rightarrow> Inl ValueError
      | Some t \<Rightarrow>
          (case split_sign (strip t) of
             (neg, ds) \<Rightarrow>
               if ds \<noteq> [] \<and> list_all is_digit ds then Inr (signed neg (nat_of_digits ds))
               else Inl ValueError))"

function strip_zeros :: "nat \<Rightarrow> int \<Rightarrow> nat \<times> int" where
  "strip_zeros c e = (if c \<noteq> 0 \<and> c mod 10 = 0 then strip_zeros (c div 10) (e + 1) else (c, e))"
  by pat_completeness auto
termination
  by (relation "measure fst") auto

declare strip_zeros.simps [simp del]

definition normalise :: "bool \<Rightarrow> nat \<Rightarrow> int \<Rightarrow> pyfloat" where
  "normalise neg c e =
     (if c = 0 then Finite neg 0 0 else case strip_zeros c e of (c', e') \<Rightarrow> Finite neg c' e')"

definition is_e :: "char \<Rightarrow> bool" where
  "is_e c \<longleftrightarrow> c = CHR ''e'' \<or> c = CHR ''E''"

text \<open>\<^verbatim>\<open>float(s)\<close>: surrounding whitespace, an optional sign, then \<open>inf\<close>,
  \<open>infinity\<close> or \<open>nan\<close> in any case, or digits with an optional point and an optional
  exponent, with a digit before or after the point. Anything else raises ValueError.\<close>

definition py_float :: "string \<Rightarrow> exn + pyfloat" where
  "py_float s =
     (case drop_underscores (CHR 0x00) s of
        None \<Rightarrow> Inl ValueError
      | Some t \<Rightarrow>
          (case split_sign (strip t) of
             (neg, body) \<Rightarrow>
               if lower body = ''inf'' \<or> lower body = ''infinity'' then Inr (Infinity neg)
               else if lower body = ''nan'' then Inr NaN
               else
                 let mant = takeWhile (\<lambda>c. \<not> is_e c) body;
                     expo = dropWhile (\<lambda>c. \<not> is_e c) body;
                     ip = takeWhile (\<lambda>c. c \<noteq> CHR ''.'') mant;
                     fp = tl (dropWhile (\<lambda>c. c \<noteq> CHR ''.'') mant)
                 in if \<not> (list_all is_digit ip \<and> list_all is_digit fp \<and> ip @ fp \<noteq> [])
                    then Inl ValueError
                    else if expo = []
                    then Inr (normalise neg (nat_of_digits (ip @ fp)) (- int (length fp)))
                    else
                      (case split_sign (tl expo) of
                         (eneg, eds) \<Rightarrow>
                           if eds \<noteq> [] \<and> list_all is_digit eds
                           then Inr (normalise neg (nat_of_digits (ip @ fp))
                                       (signed eneg (nat_of_digits eds) - int (length fp)))
                           else Inl ValueError)))"

text \<open>\<^verbatim>\<open>repr\<close> of a float (which is also its \<^verbatim>\<open>str\<close>): the digits, in
  exponent form when the decimal point would stand more than 16 places right or more
  than 3 places left of the first digit.\<close>

definition repr_exponent :: "int \<Rightarrow> string" where
  "repr_exponent x =
     (if x < 0 then ''-'' else ''+'') @ (if \<bar>x\<bar> < 10 then ''0'' else []) @ str_nat (nat \<bar>x\<bar>)"

definition float_repr :: "pyfloat \<Rightarrow> string" where
  "float_repr f =
     (case f of
        NaN \<Rightarrow> ''nan''
      | Infinity neg \<Rightarrow> (if neg then ''-inf'' else ''inf'')
      | Finite neg c e \<Rightarrow>
          (let ds = str_nat c; n = int (length ds); decpt = n + e
           in (if neg then ''-'' else []) @
              (if - 4 < decpt \<and> decpt \<le> 16 then
                 (if decpt \<le> 0 then ''0.'' @ replicate (nat (- decpt)) (CHR ''0'') @ ds
                  else if n \<le> decpt then ds @ replicate (nat (decpt - n)) (CHR ''0'') @ ''.0''
                  else take (nat decpt) ds @ ''.'' @ drop (nat decpt) ds)
               else [hd ds] @ (if 1 < n then ''.'' @ tl ds else []) @ ''e''
                    @ repr_exponent (decpt - 1))))"

definition py_str :: "value \<Rightarrow> string" where
  "py_str v =
     (case v of
        Integer i \<Rightarrow> str_int i
      | Float f \<Rightarrow> float_repr f
      | Boolean b \<Rightarrow> (if b then ''True'' else ''False'')
      | Text s \<Rightarrow> s)"

text \<open>\<^verbatim>\<open>d[k]\<close> on a dictionary raises KeyError for a missing key.\<close>

definition py_lookup :: "('k \<rightharpoonup> 'v) \<Rightarrow> 'k \<Rightarrow> exn + 'v" where
  "py_lookup d k = (case d k of None \<Rightarrow> Inl KeyError | Some v \<Rightarrow> Inr v)"

section \<open>Device status names\<close>

definition dst_strs :: "string list" where
  "dst_strs =
     [''Idle'', ''Tensiometer'', ''CompressionIsotherm'', ''ConstantArea'',
      ''ConstantPressure'', ''Manual'', ''TargetReached'', ''BarrierInit'',
      ''BarrierInitDone'']"

definition dst_to_str :: "int \<Rightarrow> string" where
  "dst_to_str i =
     (case py_getitem dst_strs i of
        Inr s \<Rightarrow> s
      | Inl _ \<Rightarrow> ''Invalid device status value: '' @ str_int i)"

section \<open>Communication with the trough\<close>

text \<open>The socket: \<open>recv_data\<close> holds what the coming \<^verbatim>\<open>recv\<close> calls return, in
  order, an empty chunk meaning that the peer has closed the connection; \<open>sent\<close> is what
  has been sent. A \<^verbatim>\<open>recv\<close> with nothing left to return blocks for ever, which is
  the result \<open>None\<close> of the functions below. \<^verbatim>\<open>send\<close> is taken to succeed. The lock
  around each exchange is not modelled: an exchange is one step.\<close>

record sock =
  recv_data :: "string list"
  sent :: "string list"

definition send :: "sock \<Rightarrow> string \<Rightarrow> sock" where
  "send sk msg = sk\<lparr>sent := sent sk @ [msg]\<rparr>"

definition line_end :: string where
  "line_end = [CHR 0x0A]"

fun readline_from :: "string \<Rightarrow> string list \<Rightarrow> (string option \<times> string list) option" where
  "readline_from s [] = None"
| "readline_from s (rdata # rest) =
     (if length rdata = 0 then Some (None, rest)
      else if endswith (s @ rdata) line_end then Some (Some (s @ rdata), rest)
      else readline_from (s @ rdata) rest)"

definition readline :: "sock \<Rightarrow> (string option \<times> sock) option" where
  "readline sk =
     (case readline_from [] (recv_data sk) of
        None \<Rightarrow> None
      | Some (r, rest) \<Rightarrow> Some (r, sk\<lparr>recv_data := rest\<rparr>))"

text \<open>The response is \<open>None\<close> when \<open>readline\<close> returned nothing; \<^verbatim>\<open>None\<close> has no
  \<^verbatim>\<open>split\<close>, so the first line of the function raises AttributeError.\<close>

definition parse_response :: "string option \<Rightarrow> exn + string list" where
  "parse_response response =
     (case response of
        None \<Rightarrow> Inl AttributeError
      | Some r \<Rightarrow>
          (case split_colon_once r of
             [ok, body] \<Rightarrow>
               if \<not> startswith ok ''OK'' then Inl (TroughError (Raw r))
               else Inr (split_ws body)
           | _ \<Rightarrow> Inl (TroughError (Raw r))))"

definition bools :: "string \<rightharpoonup> bool" where
  "bools = [''false'' \<mapsto> False, ''true'' \<mapsto> True]"

definition str_to_number :: "string \<Rightarrow> exn + value" where
  "str_to_number s =
     (case (if CHR ''.'' \<in> set s then map_sum id Float (py_float s)
            else map_sum id Integer (py_int s)) of
        Inr v \<Rightarrow> Inr v
      | Inl e \<Rightarrow>
          if e = ValueError then
            (case py_lookup bools (lower s) of
               Inr b \<Rightarrow> Inr (Boolean b)
             | Inl e' \<Rightarrow> if e' = KeyError then Inr (Text s) else Inl e')
          else Inl e)"

fun map_str_to_number :: "string list \<Rightarrow> exn + value list" where
  "map_str_to_number [] = Inr []"
| "map_str_to_number (s # ss) =
     (case str_to_number s of
        Inl e \<Rightarrow> Inl e
      | Inr v \<Rightarrow> (case map_str_to_number ss of Inl e \<Rightarrow> Inl e | Inr vs \<Rightarrow> Inr (v # vs)))"

text \<open>What \<^verbatim>\<open>call\<close> returns: \<^verbatim>\<open>None\<close>, one value, or a tuple of values.\<close>

datatype result = NoResult | Single "value" | Fields "value list"

definition call :: "string \<Rightarrow> value list \<Rightarrow> sock \<Rightarrow> ((exn + result) \<times> sock) option" where
  "call method args sk =
     (let cmd = join '' '' (method # map py_str args)
      in case readline (send sk (''call : '' @ cmd @ [CHR 0x0A])) of
           None \<Rightarrow> None
         | Some (response, sk') \<Rightarrow>
             Some ((case parse_response response of
                      Inl e \<Rightarrow> Inl e
                    | Inr strs \<Rightarrow>
                        (case map_str_to_number strs of
                           Inl e \<Rightarrow> Inl e
                         | Inr result \<Rightarrow>
                             if method = ''GetData'' then Inr (Fields result)
                             else if method = ''DeviceIdentification'' then Inr (Fields result)
                             else if length result = 0 then Inr NoResult
                             else if length result = 1 then Inr (Single (result ! 0))
                             else if length result = 2 then Inr (Single (result ! 1))
                             else Inr (Fields (tl result)))),
                   sk'))"

definition get :: "string \<Rightarrow> sock \<Rightarrow> ((exn + value) \<times> sock) option" where
  "get prop sk =
     (case readline (send sk (''get : '' @ prop @ [CHR 0x0A])) of
        None \<Rightarrow> None
      | Some (response, sk') \<Rightarrow>
          Some ((case parse_response response of
                   Inl e \<Rightarrow> Inl e
                 | Inr strs \<Rightarrow>
                     (case map_str_to_number strs of
                        Inl e \<Rightarrow> Inl e
                      | Inr result \<Rightarrow>
                          if length result \<noteq> 1
                          then Inl (TroughError (UnexpectedResults prop result))
                          else Inr (result ! 0))),
                sk'))"

definition set' :: "string \<Rightarrow> value \<Rightarrow> sock \<Rightarrow> ((exn + value list) \<times> sock) option" where
  "set' prop v sk =
     (let cmd = ''set : '' @ prop @ '' '' @ py_str v @ [CHR 0x0A]
      in case readline (send sk cmd) of
           None \<Rightarrow> None
         | Some (response, sk') \<Rightarrow>
             Some ((case parse_response response of
                      Inl e \<Rightarrow> Inl e
                    | Inr strs \<Rightarrow>
                        (case map_str_to_number strs of
                           Inl e \<Rightarrow> Inl e
                         | Inr result \<Rightarrow>
                             if length result \<noteq> 0
                             then Inl (TroughError (UnexpectedResults prop result))
                             else Inr result)),
                   sk'))"

definition ctrl :: "string \<Rightarrow> value \<Rightarrow> sock \<Rightarrow> ((exn + value list) \<times> sock) option" where
  "ctrl name v sk =
     (let cmd = ''ctrl : '' @ name @ '' '' @ py_str v @ [CHR 0x0A]
      in case readline (send sk cmd) of
           None \<Rightarrow> None
         | Some (response, sk') \<Rightarrow>
             Some ((case parse_response response of
                      Inl e \<Rightarrow> Inl e
                    | Inr strs \<Rightarrow> map_str_to_number strs),
                   sk'))"

section \<open>The polling thread\<close>

text \<open>\<^verbatim>\<open>Exception.__init__(x)\<close>, called on the class, takes \<open>x\<close> as the object to
  initialise; it raises TypeError unless \<open>x\<close> is an exception object.\<close>

datatype receiver = ExceptionObject | StrObject message

definition Exception_init :: "receiver \<Rightarrow> exn + unit" where
  "Exception_init self = (case self of ExceptionObject \<Rightarrow> Inr () | StrObject m \<Rightarrow> Inl TypeError)"

text \<open>\<^verbatim>\<open>PollDataError(msg, data)\<close>: the constructor runs
  \<^verbatim>\<open>Exception.__init__(msg)\<close> and then stores \<open>data\<close>.\<close>

definition PollDataError_init :: "message \<Rightarrow> value list list \<Rightarrow> exn + exn" where
  "PollDataError_init msg data =
     (case Exception_init (StrObject msg) of
        Inl e \<Rightarrow> Inl e
      | Inr u \<Rightarrow> Inr (PollDataError msg data))"

text \<open>\<^verbatim>\<open>count == 0\<close> for a field value: \<open>0\<close>, \<open>0.0\<close>, \<open>-0.0\<close> and \<open>False\<close>
  equal 0, a text never does.\<close>

definition eq_zero :: "value \<Rightarrow> bool" where
  "eq_zero v =
     (case v of
        Integer i \<Rightarrow> i = 0
      | Float f \<Rightarrow> (case f of Finite neg c e \<Rightarrow> c = 0 | _ \<Rightarrow> False)
      | Boolean b \<Rightarrow> \<not> b
      | Text s \<Rightarrow> False)"

text \<open>The loop of \<^verbatim>\<open>get_data\<close>, with the samples read so far. Only a TroughError
  is caught; the handler builds the PollDataError to raise, and an exception of the
  constructor replaces it. \<^verbatim>\<open>call("GetData")\<close> always returns a tuple, so the last
  case, indexing something that is not a tuple, is never reached.\<close>

function get_data_loop ::
  "value list list \<Rightarrow> sock \<Rightarrow> ((exn + value list list) \<times> sock) option" where
  "get_data_loop data sk =
     (case call ''GetData'' [] sk of
        None \<Rightarrow> None
      | Some (r, sk') \<Rightarrow>
          (case r of
             Inl err \<Rightarrow>
               (case err of
                  TroughError m \<Rightarrow>
                    (case PollDataError_init m data of
                       Inl e \<Rightarrow> Some (Inl e, sk')
                     | Inr e \<Rightarrow> Some (Inl e, sk'))
                | _ \<Rightarrow> Some (Inl err, sk'))
           | Inr res \<Rightarrow>
               (case res of
                  Fields vals \<Rightarrow>
                    (case py_getitem vals 0 of
                       Inl e \<Rightarrow> Some (Inl e, sk')
                     | Inr count \<Rightarrow>
                         if eq_zero count then Some (Inr (data @ [vals]), sk')
                         else get_data_loop (data @ [vals]) sk')
                | _ \<Rightarrow> Some (Inl TypeError, sk'))))"
  by pat_completeness auto
termination
proof (relation "measure (\<lambda>(data, sk). length (recv_data sk))")
  show "wf (measure (\<lambda>(data, sk). length (recv_data sk)))"
    by simp
next
  fix data :: "value list list" and sk x2 r sk' res vals count
  assume c: "call ''GetData'' [] sk = Some x2" and x2: "(r, sk') = x2"
  have shrink: "length rest < length q" if "readline_from s q = Some (x, rest)" for s q x rest
    using that
  proof (induction q arbitrary: s)
    case Nil
    then show ?case by simp
  next
    case (Cons a q)
    show ?case
    proof (cases "length a = 0 \<or> endswith (s @ a) line_end")
      case True
      with Cons.prems show ?thesis by (auto split: if_splits)
    next
      case False
      with Cons.prems have "readline_from (s @ a) q = Some (x, rest)" by simp
      then have "length rest < length q" by (rule Cons.IH)
      then show ?thesis by simp
    qed
  qed
  from c x2 have "length (recv_data sk') < length (recv_data sk)"
    by (auto simp: call_def readline_def send_def Let_def split: option.splits dest: shrink)
  then show "((data @ [vals], sk'), (data, sk)) \<in> measure (\<lambda>(data, sk). length (recv_data sk))"
    by simp
qed

declare get_data_loop.simps [simp del]

definition get_data :: "sock \<Rightarrow> ((exn + value list list) \<times> sock) option" where
  "get_data sk = get_data_loop [] sk"

text \<open>The callbacks are not run: each invocation is recorded, in order, and is taken
  to return normally.\<close>

datatype callback = Data_cb "value list list" | Error_cb message "value list list"

text \<open>The fields of the thread object: the interval (\<open>None\<close> suspends polling), the two
  flags, the \<^verbatim>\<open>threading.Event\<close>, whether each callback was given, and the
  record of the callbacks invoked.\<close>

record poller =
  p_interval :: "real option"
  p_error :: bool
  p_quit :: bool
  p_event :: bool
  datacb :: bool
  errcb :: bool
  invoked :: "callback list"

text \<open>The body of the \<^verbatim>\<open>if not self._error\<close> statement of \<^verbatim>\<open>run\<close>. \<open>Inl e\<close>: the
  exception \<open>e\<close> leaves \<^verbatim>\<open>run\<close> and ends the thread. The handler reads
  \<^verbatim>\<open>self.errorcb\<close>, an attribute the class never sets (the callback is stored as
  \<^verbatim>\<open>errcb\<close>), which raises AttributeError.\<close>

definition poll_cycle :: "poller \<Rightarrow> sock \<Rightarrow> ((exn + unit) \<times> poller \<times> sock) option" where
  "poll_cycle p sk =
     (if \<not> p_error p then
        (case get_data sk of
           None \<Rightarrow> None
         | Some (r, sk') \<Rightarrow>
             (case r of
                Inr data \<Rightarrow>
                  Some (Inr (),
                        (if datacb p then p\<lparr>invoked := invoked p @ [Data_cb data]\<rparr> else p), sk')
              | Inl err \<Rightarrow>
                  (case err of
                     PollDataError m d \<Rightarrow>
                       (if errcb p then Some (Inl AttributeError, p\<lparr>p_error := True\<rparr>, sk')
                        else Some (Inr (), p\<lparr>p_error := True\<rparr>, sk'))
                   | _ \<Rightarrow> Some (Inl err, p, sk'))))
      else Some (Inr (), p, sk))"

text \<open>The controls. Comparing a number with \<^verbatim>\<open>None\<close> raises TypeError.\<close>

definition py_less :: "real option \<Rightarrow> real option \<Rightarrow> exn + bool" where
  "py_less a b = (case (a, b) of (Some x, Some y) \<Rightarrow> Inr (x < y) | _ \<Rightarrow> Inl TypeError)"

definition set_interval :: "real option \<Rightarrow> poller \<Rightarrow> exn + poller" where
  "set_interval interval p =
     (case py_less interval (p_interval p) of
        Inl e \<Rightarrow> Inl e
      | Inr shorter \<Rightarrow> Inr (if shorter then p\<lparr>p_event := True\<rparr> else p))"

definition set_error :: "bool \<Rightarrow> poller \<Rightarrow> poller" where
  "set_error v p = p\<lparr>p_error := v, p_event := True\<rparr>"

definition quit :: "poller \<Rightarrow> poller" where
  "quit p = p\<lparr>p_quit := True, p_event := True\<rparr>"

subsection \<open>The main loop, one step at a time\<close>

text \<open>\<^verbatim>\<open>run\<close> is a loop without end, and the controls are called from other
  threads while it runs. The loop is therefore given as a step function: the place the
  thread has reached, and the actions of the thread, of the timer and of the callers
  of the controls, in the order they happen. How each \<^verbatim>\<open>Event.wait\<close> ended is
  recorded: at once (the event was set on entry), woken (set during the wait), or
  after the timeout.\<close>

datatype wait_end = At_once | Woken | Timed_out real

datatype place =
    At_cycle
  | At_wait
  | In_wait "real option"
  | At_quit_check
  | Blocked_in_recv
  | Exited
  | Died exn

record system =
  thread_obj :: poller
  connection :: sock
  place :: place
  waits :: "wait_end list"

datatype action =
    Thread_step
  | Timer_expires
  | Assign_interval "real option"
  | Assign_error bool
  | Call_quit

definition thread_step :: "system \<Rightarrow> system" where
  "thread_step s =
     (case place s of
        At_cycle \<Rightarrow>
          (case poll_cycle (thread_obj s) (connection s) of
             None \<Rightarrow> s\<lparr>place := Blocked_in_recv\<rparr>
           | Some (r, p', sk') \<Rightarrow>
               s\<lparr>thread_obj := p', connection := sk',
                 place := (case r of Inl e \<Rightarrow> Died e | Inr u \<Rightarrow> At_wait)\<rparr>)
      | At_wait \<Rightarrow>
          if p_event (thread_obj s) then s\<lparr>place := At_quit_check, waits := waits s @ [At_once]\<rparr>
          else s\<lparr>place := In_wait (p_interval (thread_obj s))\<rparr>
      | In_wait t \<Rightarrow>
          if p_event (thread_obj s) then s\<lparr>place := At_quit_check, waits := waits s @ [Woken]\<rparr>
          else s
      | At_quit_check \<Rightarrow>
          if p_quit (thread_obj s) then s\<lparr>place := Exited\<rparr> else s\<lparr>place := At_cycle\<rparr>
      | _ \<Rightarrow> s)"

definition timer_expires :: "system \<Rightarrow> system" where
  "timer_expires s =
     (case place s of
        In_wait (Some t) \<Rightarrow>
          if p_event (thread_obj s) then s
          else s\<lparr>place := At_quit_check, waits := waits s @ [Timed_out t]\<rparr>
      | _ \<Rightarrow> s)"

fun step :: "system \<Rightarrow> action \<Rightarrow> system" where
  "step s Thread_step = thread_step s"
| "step s Timer_expires = timer_expires s"
| "step s (Assign_interval t) =
     (case set_interval t (thread_obj s) of
        Inl e \<Rightarrow> s
      | Inr p' \<Rightarrow> s\<lparr>thread_obj := p'\<rparr>)"
| "step s (Assign_error v) = s\<lparr>thread_obj := set_error v (thread_obj s)\<rparr>"
| "step s Call_quit = s\<lparr>thread_obj := quit (thread_obj s)\<rparr>"

definition run :: "system \<Rightarrow> action list \<Rightarrow> system" where
  "run s acts = foldl step s acts"

section \<open>What the specification says, for comparison\<close>

text \<open>Splitting at every whitespace character, which yields an empty field between two
  adjacent separators; the specification then discards the empty fields.\<close>

fun split_every :: "(char \<Rightarrow> bool) \<Rightarrow> string \<Rightarrow> string list" where
  "split_every P [] = [[]]"
| "split_every P (c # cs) =
     (if P c then [] # split_every P cs
      else (case split_every P cs of [] \<Rightarrow> [[c]] | t # ts \<Rightarrow> (c # t) # ts))"

definition spec_fields :: "string \<Rightarrow> string list" where
  "spec_fields body = filter (\<lambda>t. t \<noteq> []) (split_every is_space body)"

text \<open>The order of the attempts as the specification gives it: integer, then real, then
  boolean, then the text unchanged.\<close>

definition spec_coerce :: "string \<Rightarrow> value" where
  "spec_coerce s =
     (case py_int s of
        Inr i \<Rightarrow> Integer i
      | Inl e \<Rightarrow>
          (case py_float s of
             Inr f \<Rightarrow> Float f
           | Inl e' \<Rightarrow>
               if lower s = ''true'' then Boolean True
               else if lower s = ''false'' then Boolean False
               else Text s))"

text \<open>The same order with the real attempted only for a text that contains a point,
  which is what the code does.\<close>

definition guarded_coerce :: "string \<Rightarrow> value" where
  "guarded_coerce s =
     (case py_int s of
        Inr i \<Rightarrow> Integer i
      | Inl e \<Rightarrow>
          (case (if CHR ''.'' \<in> set s then py_float s else Inl ValueError) of
             Inr f \<Rightarrow> Float f
           | Inl e' \<Rightarrow>
               if lower s = ''true'' then Boolean True
               else if lower s = ''false'' then Boolean False
               else Text s))"

text \<open>The socket answers the next drain commands with the samples \<open>ms\<close>, in order, and
  is then in the state returned.\<close>

fun drained :: "sock \<Rightarrow> value list list \<Rightarrow> sock option" where
  "drained sk [] = Some sk"
| "drained sk (m # ms) =
     (case call ''GetData'' [] sk of
        None \<Rightarrow> None
      | Some (r, sk') \<Rightarrow> if r = Inr (Fields m) then drained sk' ms else None)"

definition pending :: "value list \<Rightarrow> int \<Rightarrow> bool" where
  "pending m n \<longleftrightarrow> (case m of [] \<Rightarrow> False | c # rest \<Rightarrow> c = Integer n)"

section \<open>Properties of the device status conversion\<close>

lemma length_dst_strs: "length dst_strs = 9"
  by (simp add: dst_strs_def)

lemma dst_strs_not_invalid:
  "s \<in> set dst_strs \<Longrightarrow> s \<noteq> ''Invalid device status value: '' @ t"
  by (auto simp: dst_strs_def)

lemma dst_to_str_in_range:
  "- 9 \<le> i \<Longrightarrow> i < 9 \<Longrightarrow> dst_to_str i \<in> set dst_strs"
  by (auto simp: dst_to_str_def py_getitem_def length_dst_strs)

lemma dst_to_str_out_of_range:
  "i < - 9 \<or> 9 \<le> i \<Longrightarrow> dst_to_str i = ''Invalid device status value: '' @ str_int i"
  by (auto simp: dst_to_str_def py_getitem_def length_dst_strs)

text \<open>
  Claim C10. The conversion returns its fallback message
  \<open>Invalid device status value: \<dots>\<close> exactly when the integer argument is at least 9
  or at most -10. For an argument from -9 to -1 it returns one of the nine status names,
  the one counted from the end of the list, although valid device status values are 0 to 8.
\<close>

theorem dst_to_str_fallback_iff:
  "(dst_to_str i = ''Invalid device status value: '' @ str_int i \<longleftrightarrow> 9 \<le> i \<or> i \<le> - 10)
   \<and> (- 9 \<le> i \<and> i \<le> - 1 \<longrightarrow>
        dst_to_str i = dst_strs ! nat (i + 9) \<and> dst_to_str i \<in> set dst_strs)"
proof -
  have a: "dst_to_str i = ''Invalid device status value: '' @ str_int i" if "9 \<le> i \<or> i \<le> - 10"
    using that dst_to_str_out_of_range [of i] by auto
  have b: "dst_to_str i \<noteq> ''Invalid device status value: '' @ str_int i" if "\<not> (9 \<le> i \<or> i \<le> - 10)"
    using that dst_to_str_in_range [of i] dst_strs_not_invalid by auto
  have c: "dst_to_str i = dst_strs ! nat (i + 9)" if "- 9 \<le> i" "i \<le> - 1"
    using that by (simp add: dst_to_str_def py_getitem_def length_dst_strs)
  have d: "dst_to_str i \<in> set dst_strs" if "- 9 \<le> i" "i \<le> - 1"
    using that dst_to_str_in_range [of i] by simp
  from a b c d show ?thesis by blast
qed

theorem dst_to_str_fallback_iff_witness:
  "dst_to_str (- 1) = ''BarrierInitDone'' \<and> dst_to_str (- 9) = ''Idle''
   \<and> dst_to_str 9 = ''Invalid device status value: 9''
   \<and> dst_to_str (- 10) = ''Invalid device status value: -10''"
proof -
  have s9: "str_int 9 = ''9''" by (simp add: str_int_def str_nat.simps digit_char_def)
  have s10: "str_int (- 10) = ''-10''" by (simp add: str_int_def str_nat.simps digit_char_def)
  have "dst_to_str (- 1) = dst_strs ! nat (- 1 + 9)"
    using dst_to_str_fallback_iff [of "- 1"] by simp
  moreover have "dst_to_str (- 9) = dst_strs ! nat (- 9 + 9)"
    using dst_to_str_fallback_iff [of "- 9"] by simp
  moreover have "dst_to_str 9 = ''Invalid device status value: '' @ str_int 9"
    using dst_to_str_fallback_iff [of 9] by simp
  moreover have "dst_to_str (- 10) = ''Invalid device status value: '' @ str_int (- 10)"
    using dst_to_str_fallback_iff [of "- 10"] by simp
  ultimately show ?thesis
    by (simp add: s9 s10 dst_strs_def)
qed

section \<open>Parsing a response line\<close>

lemma split_every_not_Nil: "split_every P s \<noteq> []"
  by (induction s) (auto split: list.splits)

lemma split_ws_from_split_every:
  "split_ws_from cur s =
     filter (\<lambda>t. t \<noteq> []) (case split_every is_space s of [] \<Rightarrow> [cur] | t # ts \<Rightarrow> (cur @ t) # ts)"
proof (induction s arbitrary: cur)
  case Nil
  then show ?case by simp
next
  case (Cons c cs)
  obtain t ts where ts: "split_every is_space cs = t # ts"
    using split_every_not_Nil [of is_space cs] by (cases "split_every is_space cs") auto
  show ?case
  proof (cases "is_space c")
    case True
    then show ?thesis using Cons.IH [of "[]"] by (simp add: ts)
  next
    case False
    then show ?thesis using Cons.IH [of "cur @ [c]"] by (simp add: ts)
  qed
qed

lemma split_ws_spec_fields: "split_ws s = spec_fields s"
  using split_every_not_Nil [of is_space s]
  by (cases "split_every is_space s")
     (simp_all add: split_ws_def spec_fields_def split_ws_from_split_every)

lemma split_colon_once_at:
  assumes "CHR '':'' \<notin> set ok"
  shows "split_colon_once (ok @ CHR '':'' # body) = [ok, body]"
proof -
  have "takeWhile (\<lambda>c. c \<noteq> CHR '':'') (ok @ CHR '':'' # body) = ok"
    using assms by (induction ok) auto
  moreover have "dropWhile (\<lambda>c. c \<noteq> CHR '':'') (ok @ CHR '':'' # body) = CHR '':'' # body"
    using assms by (induction ok) auto
  ultimately show ?thesis by (simp add: split_colon_once_def)
qed

lemma colon_decompose:
  assumes "CHR '':'' \<in> set line"
  shows "line = takeWhile (\<lambda>c. c \<noteq> CHR '':'') line @ CHR '':'' # tl (dropWhile (\<lambda>c. c \<noteq> CHR '':'') line)
         \<and> CHR '':'' \<notin> set (takeWhile (\<lambda>c. c \<noteq> CHR '':'') line)"
proof -
  have "dropWhile (\<lambda>c. c \<noteq> CHR '':'') line \<noteq> []"
    using assms by (simp add: dropWhile_eq_Nil_conv)
  moreover have "hd (dropWhile (\<lambda>c. c \<noteq> CHR '':'') line) = CHR '':''"
    using assms hd_dropWhile [of "\<lambda>c. c \<noteq> CHR '':''" line] by (auto simp: dropWhile_eq_Nil_conv)
  ultimately have "dropWhile (\<lambda>c. c \<noteq> CHR '':'') line = CHR '':'' # tl (dropWhile (\<lambda>c. c \<noteq> CHR '':'') line)"
    by (cases "dropWhile (\<lambda>c. c \<noteq> CHR '':'') line") auto
  then have "line = takeWhile (\<lambda>c. c \<noteq> CHR '':'') line @ CHR '':'' # tl (dropWhile (\<lambda>c. c \<noteq> CHR '':'') line)"
    using takeWhile_dropWhile_id [of "\<lambda>c. c \<noteq> CHR '':''" line] by simp
  moreover have "CHR '':'' \<notin> set (takeWhile (\<lambda>c. c \<noteq> CHR '':'') line)"
    using set_takeWhileD by fastforce
  ultimately show ?thesis by blast
qed

lemma startswith_OK: "startswith ok ''OK'' \<longleftrightarrow> (\<exists>rest. ok = ''OK'' @ rest)"
proof
  assume "startswith ok ''OK''"
  then have "take 2 ok = ''OK''" by (simp add: startswith_def numeral_2_eq_2)
  then have "ok = ''OK'' @ drop 2 ok" by (metis append_take_drop_id)
  then show "\<exists>rest. ok = ''OK'' @ rest" ..
next
  assume "\<exists>rest. ok = ''OK'' @ rest"
  then show "startswith ok ''OK''" by (auto simp: startswith_def)
qed

text \<open>
  Claim C5. Parsing a response line splits it at the first colon. It fails, with a
  TroughError carrying the raw line, exactly when the line has no colon or the part before
  the first colon does not start with \<open>OK\<close>: that is, when the line is not \<open>OK\<close>, a rest
  without colon, a colon and a body. Otherwise it returns the body split on whitespace
  with the empty fields discarded, in order.
\<close>

theorem parse_response_spec:
  "(\<forall>rest body. line = ''OK'' @ rest @ CHR '':'' # body \<and> CHR '':'' \<notin> set rest \<longrightarrow>
      parse_response (Some line) = Inr (spec_fields body))
   \<and> ((\<nexists>rest body. line = ''OK'' @ rest @ CHR '':'' # body \<and> CHR '':'' \<notin> set rest) \<longrightarrow>
      parse_response (Some line) = Inl (TroughError (Raw line)))"
proof (intro conjI allI impI)
  fix rest body
  assume a: "line = ''OK'' @ rest @ CHR '':'' # body \<and> CHR '':'' \<notin> set rest"
  then have "CHR '':'' \<notin> set (''OK'' @ rest)" by simp
  then have "split_colon_once ((''OK'' @ rest) @ CHR '':'' # body) = [''OK'' @ rest, body]"
    by (rule split_colon_once_at)
  with a have "split_colon_once line = [''OK'' @ rest, body]" by simp
  moreover have "startswith (''OK'' @ rest) ''OK''" by (simp add: startswith_def)
  ultimately show "parse_response (Some line) = Inr (spec_fields body)"
    by (simp add: parse_response_def split_ws_spec_fields)
next
  assume n: "\<nexists>rest body. line = ''OK'' @ rest @ CHR '':'' # body \<and> CHR '':'' \<notin> set rest"
  show "parse_response (Some line) = Inl (TroughError (Raw line))"
  proof (cases "CHR '':'' \<in> set line")
    case False
    then show ?thesis by (simp add: parse_response_def split_colon_once_def)
  next
    case True
    let ?ok = "takeWhile (\<lambda>c. c \<noteq> CHR '':'') line"
    let ?body = "tl (dropWhile (\<lambda>c. c \<noteq> CHR '':'') line)"
    from True have d: "line = ?ok @ CHR '':'' # ?body" "CHR '':'' \<notin> set ?ok"
      using colon_decompose [of line] by auto
    have "\<not> startswith ?ok ''OK''"
    proof
      assume "startswith ?ok ''OK''"
      then obtain rest where r: "?ok = ''OK'' @ rest" by (auto simp: startswith_OK)
      with d have "line = ''OK'' @ rest @ CHR '':'' # ?body \<and> CHR '':'' \<notin> set rest"
        by (metis Un_iff append.assoc set_append)
      with n show False by blast
    qed
    with True show ?thesis by (simp add: parse_response_def split_colon_once_def)
  qed
qed

theorem parse_response_spec_witness:
  "parse_response (Some ''OK: 2 1 2 3'') = Inr [''2'', ''1'', ''2'', ''3'']
   \<and> parse_response (Some ''ERR: busy'') = Inl (TroughError (Raw ''ERR: busy''))"
proof -
  have "''OK: 2 1 2 3'' = ''OK'' @ [] @ CHR '':'' # '' 2 1 2 3'' \<and> CHR '':'' \<notin> set []"
    by simp
  then have "parse_response (Some ''OK: 2 1 2 3'') = Inr (spec_fields '' 2 1 2 3'')"
    using parse_response_spec [of "''OK: 2 1 2 3''"] by blast
  moreover have "spec_fields '' 2 1 2 3'' = [''2'', ''1'', ''2'', ''3'']"
    by (simp add: spec_fields_def is_space_def)
  moreover have "\<nexists>rest body. ''ERR: busy'' = ''OK'' @ rest @ CHR '':'' # body \<and> CHR '':'' \<notin> set rest"
    by simp
  then have "parse_response (Some ''ERR: busy'') = Inl (TroughError (Raw ''ERR: busy''))"
    using parse_response_spec [of "''ERR: busy''"] by blast
  ultimately show ?thesis by simp
qed

section \<open>Coercion of response fields\<close>

lemmas eval_defs = py_int_def py_float_def strip_def split_sign_def nat_of_digits_def signed_def
  is_digit_def is_space_def digit_val_def is_e_def normalise_def lower_def lower_char_def
  bools_def py_lookup_def str_to_number_def strip_zeros.simps py_str_def float_repr_def
  repr_exponent_def str_nat.simps digit_char_def str_int_def

lemma dropWhile_keeps: "c \<in> set t \<Longrightarrow> \<not> P c \<Longrightarrow> c \<in> set (dropWhile P t)"
  by (induction t) auto

lemma strip_keeps: "c \<in> set t \<Longrightarrow> \<not> is_space c \<Longrightarrow> c \<in> set (strip t)"
  by (simp add: strip_def dropWhile_keeps)

lemma drop_underscores_keeps:
  "drop_underscores prev s = Some t \<Longrightarrow> c \<in> set s \<Longrightarrow> c \<noteq> CHR ''_'' \<Longrightarrow> c \<in> set t"
  by (induction s arbitrary: prev t) (auto split: if_splits)

lemma split_sign_keeps:
  "split_sign s = (neg, ds) \<Longrightarrow> c \<in> set s \<Longrightarrow> c \<noteq> CHR ''-'' \<Longrightarrow> c \<noteq> CHR ''+'' \<Longrightarrow> c \<in> set ds"
  by (auto simp: split_sign_def split: list.splits if_splits)

lemma py_int_point:
  assumes "CHR ''.'' \<in> set s"
  shows "py_int s = Inl ValueError"
proof (cases "drop_underscores (CHR 0x00) s")
  case None
  then show ?thesis by (simp add: py_int_def)
next
  case (Some t)
  obtain neg ds where sp: "split_sign (strip t) = (neg, ds)"
    by (cases "split_sign (strip t)") auto
  from Some assms have "CHR ''.'' \<in> set t"
    by (rule drop_underscores_keeps) simp
  then have "CHR ''.'' \<in> set (strip t)"
    by (rule strip_keeps) (simp add: is_space_def)
  with sp have "CHR ''.'' \<in> set ds"
    by (rule split_sign_keeps) simp_all
  moreover have "\<not> is_digit (CHR ''.'')"
    by (simp add: is_digit_def)
  ultimately have "\<not> list_all is_digit ds"
    by (auto simp: list_all_iff)
  with Some sp show ?thesis by (simp add: py_int_def)
qed

lemma py_int_error: "py_int s = Inl e \<Longrightarrow> e = ValueError"
  by (auto simp: py_int_def split: option.splits prod.splits if_splits)

lemma py_float_error: "py_float s = Inl e \<Longrightarrow> e = ValueError"
  by (auto simp: py_float_def Let_def split: option.splits prod.splits if_splits)

lemma bools_lookup:
  "py_lookup bools k =
     (if k = ''true'' then Inr True else if k = ''false'' then Inr False else Inl KeyError)"
  by (simp add: py_lookup_def bools_def)

lemma str_to_number_eq: "str_to_number s = Inr (guarded_coerce s)"
proof (cases "CHR ''.'' \<in> set s")
  case True
  then have i: "py_int s = Inl ValueError" by (rule py_int_point)
  show ?thesis
  proof (cases "py_float s")
    case (Inl e)
    then have "e = ValueError" by (rule py_float_error)
    with Inl True i show ?thesis
      by (simp add: str_to_number_def guarded_coerce_def bools_lookup)
  next
    case (Inr f)
    with True i show ?thesis
      by (simp add: str_to_number_def guarded_coerce_def)
  qed
next
  case False
  show ?thesis
  proof (cases "py_int s")
    case (Inl e)
    then have "e = ValueError" by (rule py_int_error)
    with Inl False show ?thesis
      by (simp add: str_to_number_def guarded_coerce_def bools_lookup)
  next
    case (Inr i)
    with False show ?thesis
      by (simp add: str_to_number_def guarded_coerce_def)
  qed
qed

lemma map_str_to_number_eq: "map_str_to_number ss = Inr (map guarded_coerce ss)"
  by (induction ss) (simp_all add: str_to_number_eq)

text \<open>
  Claim C6, as amended. Coercing a raw field never fails and attempts, in this order:
  an integer, if the text reads as a signed integer in base 10; a real, if the text
  contains a point and reads as a floating-point number; a boolean, if the text in
  lower case is \<open>true\<close> or \<open>false\<close>; otherwise the text itself, unchanged. So \<open>1\<close> becomes
  the integer 1 and not a boolean, \<open>3.0\<close> the real 3.0, \<open>True\<close> and \<open>false\<close> booleans, and
  \<open>abc\<close> stays a text. The same holds field by field for a sequence of fields.
\<close>

theorem str_to_number_order:
  "str_to_number s = Inr (guarded_coerce s)
   \<and> map_str_to_number ss = Inr (map guarded_coerce ss)"
proof
  show "str_to_number s = Inr (guarded_coerce s)"
    by (rule str_to_number_eq)
  show "map_str_to_number ss = Inr (map guarded_coerce ss)"
    by (rule map_str_to_number_eq)
qed

theorem str_to_number_order_witness:
  "str_to_number ''1'' = Inr (Integer 1)
   \<and> str_to_number ''3.0'' = Inr (Float (Finite False 3 0))
   \<and> str_to_number ''True'' = Inr (Boolean True)
   \<and> str_to_number ''false'' = Inr (Boolean False)
   \<and> str_to_number ''abc'' = Inr (Text ''abc'')
   \<and> map_str_to_number [''3'', ''FALSE''] = Inr [Integer 3, Boolean False]"
proof -
  have "guarded_coerce ''1'' = Integer 1" "guarded_coerce ''3'' = Integer 3"
    "guarded_coerce ''3.0'' = Float (Finite False 3 0)"
    "guarded_coerce ''True'' = Boolean True" "guarded_coerce ''false'' = Boolean False"
    "guarded_coerce ''FALSE'' = Boolean False"
    "guarded_coerce ''abc'' = Text ''abc''"
    by (simp_all add: guarded_coerce_def eval_defs)
  then show ?thesis
    using str_to_number_order [of "''1''" "[''3'', ''FALSE'']"]
      str_to_number_order [of "''3.0''" "[]"] str_to_number_order [of "''True''" "[]"]
      str_to_number_order [of "''false''" "[]"] str_to_number_order [of "''abc''" "[]"]
    by simp
qed

text \<open>The text \<open>1e5\<close> reads as a floating-point number and not as an integer, so the order
  of the specification makes it the real 100000.0; it contains no point, and the code
  leaves it a text.\<close>

theorem str_to_number_order_counterexample:
  "py_int ''1e5'' = Inl ValueError \<and> py_float ''1e5'' = Inr (Finite False 1 5)
   \<and> spec_coerce ''1e5'' = Float (Finite False 1 5)
   \<and> str_to_number ''1e5'' = Inr (Text ''1e5'')"
  by (simp add: eval_defs spec_coerce_def)

lemma is_digit_plain:
  "is_digit c \<Longrightarrow> c \<noteq> CHR ''_'' \<and> c \<noteq> CHR ''-'' \<and> c \<noteq> CHR ''+'' \<and> c \<noteq> CHR ''.'' \<and> \<not> is_space c"
  by (auto simp: is_digit_def is_space_def)

lemma digit_char_props:
  assumes "d < 10"
  shows "is_digit (digit_char d) \<and> digit_val (digit_char d) = d"
proof -
  from assms have "d = 0 \<or> d = 1 \<or> d = 2 \<or> d = 3 \<or> d = 4 \<or> d = 5 \<or> d = 6 \<or> d = 7 \<or> d = 8 \<or> d = 9"
    by arith
  then show ?thesis
    by (auto simp: digit_char_def is_digit_def digit_val_def)
qed

lemma str_nat_digits: "list_all is_digit (str_nat n)"
proof (induction n rule: str_nat.induct)
  case (1 n)
  show ?case
  proof (cases "n < 10")
    case True
    then show ?thesis by (simp add: str_nat.simps [of n] digit_char_props)
  next
    case False
    moreover have "n mod 10 < 10" by simp
    ultimately show ?thesis
      using "1.IH" by (simp add: str_nat.simps [of n] digit_char_props)
  qed
qed








lemma str_int_no_point: "CHR ''.'' \<notin> set (str_int i)"
  using str_nat_digits [of "nat i"] str_nat_digits [of "nat (- i)"] is_digit_plain
  by (auto simp: str_int_def list_all_iff)





subsection \<open>Reading back the string form of a real\<close>





















section \<open>Shaping the result of a call\<close>

lemmas sock_defs = readline_def send_def endswith_def line_end_def

text \<open>
  Claim C3. When the response to a call parses, the result is shaped from the coerced
  fields: for \<open>GetData\<close> and \<open>DeviceIdentification\<close> all of them, the leading status
  field included; otherwise nothing for no field, the value for one field, the second
  value for two fields, and for more the fields after the first.
\<close>

theorem call_shapes_result:
  assumes "readline (send sk (''call : '' @ join '' '' (method # map py_str args) @ [CHR 0x0A]))
             = Some (Some line, sk')"
    and "parse_response (Some line) = Inr strs"
  shows "call method args sk =
           Some (Inr (if method = ''GetData'' \<or> method = ''DeviceIdentification''
                      then Fields (map guarded_coerce strs)
                      else (case map guarded_coerce strs of
                              [] \<Rightarrow> NoResult
                            | [v] \<Rightarrow> Single v
                            | [c, v] \<Rightarrow> Single v
                            | c # rest \<Rightarrow> Fields rest)),
                 sk')"
proof -
  let ?vs = "map guarded_coerce strs"
  have shape:
    "(if length ?vs = 0 then Inr NoResult
      else if length ?vs = 1 then Inr (Single (?vs ! 0))
      else if length ?vs = 2 then Inr (Single (?vs ! 1))
      else Inr (Fields (tl ?vs)))
     = (Inr (case ?vs of [] \<Rightarrow> NoResult | [v] \<Rightarrow> Single v | [c, v] \<Rightarrow> Single v
             | c # rest \<Rightarrow> Fields rest) :: exn + result)"
    by (cases ?vs rule: list.exhaust; simp split: list.splits)
  show ?thesis
    using assms shape
    by (simp add: call_def Let_def map_str_to_number_eq del: length_map)
qed

theorem call_shapes_result_witness:
  "call ''GetData'' [] \<lparr>recv_data = [''OK: 2 1 2 3'' @ [CHR 0x0A]], sent = []\<rparr>
     = Some (Inr (Fields [Integer 2, Integer 1, Integer 2, Integer 3]),
             \<lparr>recv_data = [], sent = [''call : GetData'' @ [CHR 0x0A]]\<rparr>)
   \<and> call ''Foo'' [] \<lparr>recv_data = [''OK: 5 9'' @ [CHR 0x0A]], sent = []\<rparr>
     = Some (Inr (Single (Integer 9)), \<lparr>recv_data = [], sent = [''call : Foo'' @ [CHR 0x0A]]\<rparr>)
   \<and> call ''Foo'' [] \<lparr>recv_data = [''OK:'' @ [CHR 0x0A]], sent = []\<rparr>
     = Some (Inr NoResult, \<lparr>recv_data = [], sent = [''call : Foo'' @ [CHR 0x0A]]\<rparr>)
   \<and> call ''Foo'' [] \<lparr>recv_data = [''OK: 1 2 3 4'' @ [CHR 0x0A]], sent = []\<rparr>
     = Some (Inr (Fields [Integer 2, Integer 3, Integer 4]),
             \<lparr>recv_data = [], sent = [''call : Foo'' @ [CHR 0x0A]]\<rparr>)"
proof -
  let ?sk1 = "\<lparr>recv_data = [''OK: 2 1 2 3'' @ [CHR 0x0A]], sent = []\<rparr>"
  let ?sk1' = "\<lparr>recv_data = [], sent = [''call : GetData'' @ [CHR 0x0A]]\<rparr>"
  let ?sk2 = "\<lparr>recv_data = [''OK: 5 9'' @ [CHR 0x0A]], sent = []\<rparr>"
  let ?sk3 = "\<lparr>recv_data = [''OK:'' @ [CHR 0x0A]], sent = []\<rparr>"
  let ?sk4 = "\<lparr>recv_data = [''OK: 1 2 3 4'' @ [CHR 0x0A]], sent = []\<rparr>"
  let ?sk' = "\<lparr>recv_data = [], sent = [''call : Foo'' @ [CHR 0x0A]]\<rparr>"
  let ?get = "''call : '' @ join '' '' (''GetData'' # map py_str []) @ [CHR 0x0A]"
  let ?foo = "''call : '' @ join '' '' (''Foo'' # map py_str []) @ [CHR 0x0A]"
  have r1: "readline (send ?sk1 ?get) = Some (Some (''OK: 2 1 2 3'' @ [CHR 0x0A]), ?sk1')"
    by (simp add: sock_defs)
  have r2: "readline (send ?sk2 ?foo) = Some (Some (''OK: 5 9'' @ [CHR 0x0A]), ?sk')"
    by (simp add: sock_defs)
  have r3: "readline (send ?sk3 ?foo) = Some (Some (''OK:'' @ [CHR 0x0A]), ?sk')"
    by (simp add: sock_defs)
  have r4: "readline (send ?sk4 ?foo) = Some (Some (''OK: 1 2 3 4'' @ [CHR 0x0A]), ?sk')"
    by (simp add: sock_defs)
  have p1: "parse_response (Some (''OK: 2 1 2 3'' @ [CHR 0x0A])) = Inr [''2'', ''1'', ''2'', ''3'']"
    by (simp add: parse_response_def split_colon_once_def startswith_def split_ws_def is_space_def)
  have p2: "parse_response (Some (''OK: 5 9'' @ [CHR 0x0A])) = Inr [''5'', ''9'']"
    by (simp add: parse_response_def split_colon_once_def startswith_def split_ws_def is_space_def)
  have p3: "parse_response (Some (''OK:'' @ [CHR 0x0A])) = Inr []"
    by (simp add: parse_response_def split_colon_once_def startswith_def split_ws_def is_space_def)
  have p4: "parse_response (Some (''OK: 1 2 3 4'' @ [CHR 0x0A])) = Inr [''1'', ''2'', ''3'', ''4'']"
    by (simp add: parse_response_def split_colon_once_def startswith_def split_ws_def is_space_def)
  have g: "guarded_coerce ''1'' = Integer 1" "guarded_coerce ''2'' = Integer 2"
    "guarded_coerce ''3'' = Integer 3" "guarded_coerce ''4'' = Integer 4"
    "guarded_coerce ''5'' = Integer 5" "guarded_coerce ''9'' = Integer 9"
    by (simp_all add: guarded_coerce_def eval_defs)
  show ?thesis
    using call_shapes_result [OF r1 p1] call_shapes_result [OF r2 p2]
      call_shapes_result [OF r3 p3] call_shapes_result [OF r4 p4]
    by (simp add: g)
qed

section \<open>A connection closed by the peer\<close>

lemma endswith_line_end: "a \<noteq> [] \<Longrightarrow> endswith (s @ a) line_end \<longleftrightarrow> last a = CHR 0x0A"
proof -
  assume a: "a \<noteq> []"
  then have "s @ a = (s @ butlast a) @ [last a]" by simp
  then have "endswith (s @ a) line_end \<longleftrightarrow> endswith ((s @ butlast a) @ [last a]) line_end"
    by simp
  also have "\<dots> \<longleftrightarrow> last a = CHR 0x0A"
    by (simp add: endswith_def line_end_def)
  finally show ?thesis .
qed

lemma readline_from_closed:
  assumes "\<forall>a\<in>set pre. a \<noteq> [] \<and> last a \<noteq> CHR 0x0A"
  shows "readline_from s (pre @ [] # rest) = Some (None, rest)"
  using assms
proof (induction pre arbitrary: s)
  case Nil
  then show ?case by simp
next
  case (Cons a pre)
  then have "a \<noteq> []" "\<not> endswith (s @ a) line_end"
    by (simp_all add: endswith_line_end)
  with Cons show ?case by simp
qed

lemma readline_closed:
  assumes "recv_data sk = pre @ [] # rest" and "\<forall>a\<in>set pre. a \<noteq> [] \<and> last a \<noteq> CHR 0x0A"
  shows "readline (send sk cmd) = Some (None, (send sk cmd)\<lparr>recv_data := rest\<rparr>)"
  using assms readline_from_closed [of pre "[]" rest]
  by (simp add: readline_def send_def)

text \<open>
  Claim C7 says that an empty read, the peer having closed the connection before a line
  terminator was seen, yields no response and is treated by the caller of the read as a
  fatal ConnectionError. Reading the line does detect the closed connection and yields
  no response, but none of the four operations (\<open>call\<close>, \<open>get\<close>, \<open>set\<close>, \<open>ctrl\<close>) checks
  for it: each hands the missing response to the parser, whose first statement fails
  with AttributeError. The operation ends with that error, not with a ConnectionError
  and not with the TroughError the parser raises for every other bad response.
\<close>

theorem closed_connection_raises:
  assumes "recv_data sk = pre @ [] # rest" and "\<forall>a\<in>set pre. a \<noteq> [] \<and> last a \<noteq> CHR 0x0A"
  shows "readline sk = Some (None, sk\<lparr>recv_data := rest\<rparr>)
       \<and> (\<exists>sk'. call method args sk = Some (Inl AttributeError, sk') \<and> recv_data sk' = rest)
       \<and> (\<exists>sk'. get prop sk = Some (Inl AttributeError, sk') \<and> recv_data sk' = rest)
       \<and> (\<exists>sk'. set' prop v sk = Some (Inl AttributeError, sk') \<and> recv_data sk' = rest)
       \<and> (\<exists>sk'. ctrl prop v sk = Some (Inl AttributeError, sk') \<and> recv_data sk' = rest)"
proof -
  have r: "readline (send sk cmd) = Some (None, (send sk cmd)\<lparr>recv_data := rest\<rparr>)" for cmd
    using assms by (rule readline_closed)
  have "readline sk = Some (None, sk\<lparr>recv_data := rest\<rparr>)"
    using assms readline_from_closed [of pre "[]" rest] by (simp add: readline_def)
  moreover have "\<exists>sk'. call method args sk = Some (Inl AttributeError, sk') \<and> recv_data sk' = rest"
    by (simp add: call_def Let_def r parse_response_def)
  moreover have "\<exists>sk'. get prop sk = Some (Inl AttributeError, sk') \<and> recv_data sk' = rest"
    by (simp add: get_def r parse_response_def)
  moreover have "\<exists>sk'. set' prop v sk = Some (Inl AttributeError, sk') \<and> recv_data sk' = rest"
    by (simp add: set'_def Let_def r parse_response_def)
  moreover have "\<exists>sk'. ctrl prop v sk = Some (Inl AttributeError, sk') \<and> recv_data sk' = rest"
    by (simp add: ctrl_def Let_def r parse_response_def)
  ultimately show ?thesis by blast
qed

theorem closed_connection_raises_witness:
  "readline \<lparr>recv_data = [''OK: 5'', [], ''x''], sent = []\<rparr>
     = Some (None, \<lparr>recv_data = [''x''], sent = []\<rparr>)
   \<and> (\<exists>sk'. call ''Foo'' [] \<lparr>recv_data = [''OK: 5'', [], ''x''], sent = []\<rparr>
               = Some (Inl AttributeError, sk') \<and> recv_data sk' = [''x''])"
proof -
  have a: "recv_data \<lparr>recv_data = [''OK: 5'', [], ''x''], sent = []\<rparr> = [''OK: 5''] @ [] # [''x'']"
    by simp
  have b: "\<forall>a\<in>set [''OK: 5'']. a \<noteq> [] \<and> last a \<noteq> CHR 0x0A"
    by simp
  show ?thesis
    using closed_connection_raises [OF a b, of "''Foo''" "[]"] by simp
qed

text \<open>The connection is closed in the middle of a response: the call ends with
  AttributeError, not with ConnectionError.\<close>

lemma closed_connection_mid_response:
  "call ''GetData'' [] \<lparr>recv_data = [''OK: 2 1'', []], sent = []\<rparr>
     = Some (Inl AttributeError, \<lparr>recv_data = [], sent = [''call : GetData'' @ [CHR 0x0A]]\<rparr>)
   \<and> AttributeError \<noteq> ConnectionError"
  by (simp add: call_def Let_def sock_defs parse_response_def)

section \<open>The poll cycle\<close>

lemma pending_getitem: "pending m n \<Longrightarrow> py_getitem m 0 = Inr (Integer n)"
  by (cases m) (simp_all add: pending_def py_getitem_def)

lemma get_data_loop_stop:
  assumes "call ''GetData'' [] sk = Some (Inr (Fields m), sk')" and "pending m 0"
  shows "get_data_loop data sk = Some (Inr (data @ [m]), sk')"
  using assms pending_getitem [OF assms(2)]
  by (simp add: get_data_loop.simps [of data sk] eq_zero_def)

lemma get_data_loop_continue:
  assumes "call ''GetData'' [] sk = Some (Inr (Fields m), sk')" and "pending m n" and "0 < n"
  shows "get_data_loop data sk = get_data_loop (data @ [m]) sk'"
  using assms pending_getitem [OF assms(2)]
  by (simp add: get_data_loop.simps [of data sk] eq_zero_def)

lemma drained_Cons:
  "drained sk (m # ms) = Some sk'' \<Longrightarrow>
     \<exists>sk'. call ''GetData'' [] sk = Some (Inr (Fields m), sk') \<and> drained sk' ms = Some sk''"
  by (auto split: option.splits if_splits)

lemma get_data_loop_drained:
  assumes "drained sk (ms @ [m]) = Some sk'"
    and "\<forall>x\<in>set ms. \<exists>n>0. pending x n"
    and "pending m 0"
  shows "get_data_loop data sk = Some (Inr (data @ ms @ [m]), sk')"
  using assms
proof (induction ms arbitrary: data sk)
  case Nil
  then obtain sk1 where "call ''GetData'' [] sk = Some (Inr (Fields m), sk1)" "drained sk1 [] = Some sk'"
    using drained_Cons [of sk m "[]" sk'] by auto
  with Nil show ?case
    by (simp add: get_data_loop_stop)
next
  case (Cons x ms)
  from Cons.prems(1) obtain sk1 where c: "call ''GetData'' [] sk = Some (Inr (Fields x), sk1)"
    and d: "drained sk1 (ms @ [m]) = Some sk'"
    using drained_Cons [of sk x "ms @ [m]" sk'] by auto
  from Cons.prems(2) obtain n where n: "0 < n" "pending x n" by auto
  have "get_data_loop data sk = get_data_loop (data @ [x]) sk1"
    using c n(2) n(1) by (rule get_data_loop_continue)
  also have "\<dots> = Some (Inr ((data @ [x]) @ ms @ [m]), sk')"
    using d Cons.prems(2,3) by (intro Cons.IH) auto
  finally show ?case by simp
qed

text \<open>
  For samples whose pending counts are positive and then 0, a poll cycle appends each
  sample to the batch, oldest first, stops at the sample whose count is 0, reading
  nothing after it, and invokes the data callback once, with the whole batch. So the
  counts 2, 1, 0 give one invocation with a batch of three samples.
\<close>

lemma poll_cycle_drains:
  assumes "drained sk (ms @ [m]) = Some sk'"
    and "\<forall>x\<in>set ms. \<exists>n>0. pending x n"
    and "pending m 0"
    and "\<not> p_error p" and "datacb p"
  shows "get_data sk = Some (Inr (ms @ [m]), sk')
       \<and> poll_cycle p sk = Some (Inr (), p\<lparr>invoked := invoked p @ [Data_cb (ms @ [m])]\<rparr>, sk')"
  using get_data_loop_drained [OF assms(1-3), of "[]"] assms(4,5)
  by (simp add: get_data_def poll_cycle_def)

lemma poll_cycle_drains_example:
  "poll_cycle
     \<lparr>p_interval = Some 1, p_error = False, p_quit = False, p_event = False,
        datacb = True, errcb = True, invoked = []\<rparr>
     \<lparr>recv_data = [''OK: 2 10 20'' @ [CHR 0x0A], ''OK: 1 11 21'' @ [CHR 0x0A],
                    ''OK: 0 12 22'' @ [CHR 0x0A]], sent = []\<rparr>
   = Some (Inr (),
           \<lparr>p_interval = Some 1, p_error = False, p_quit = False, p_event = False,
              datacb = True, errcb = True,
              invoked = [Data_cb [[Integer 2, Integer 10, Integer 20],
                                  [Integer 1, Integer 11, Integer 21],
                                  [Integer 0, Integer 12, Integer 22]]]\<rparr>,
           \<lparr>recv_data = [],
              sent = [''call : GetData'' @ [CHR 0x0A], ''call : GetData'' @ [CHR 0x0A],
                      ''call : GetData'' @ [CHR 0x0A]]\<rparr>)"
proof -
  let ?p = "\<lparr>p_interval = Some 1, p_error = False, p_quit = False, p_event = False,
              datacb = True, errcb = True, invoked = []\<rparr>"
  let ?sk = "\<lparr>recv_data = [''OK: 2 10 20'' @ [CHR 0x0A], ''OK: 1 11 21'' @ [CHR 0x0A],
                             ''OK: 0 12 22'' @ [CHR 0x0A]], sent = []\<rparr>"
  let ?sk' = "\<lparr>recv_data = [],
                sent = [''call : GetData'' @ [CHR 0x0A], ''call : GetData'' @ [CHR 0x0A],
                        ''call : GetData'' @ [CHR 0x0A]]\<rparr>"
  let ?ms = "[[Integer 2, Integer 10, Integer 20], [Integer 1, Integer 11, Integer 21]]"
  let ?m = "[Integer 0, Integer 12, Integer 22]"
  have g: "guarded_coerce ''0'' = Integer 0" "guarded_coerce ''1'' = Integer 1"
    "guarded_coerce ''2'' = Integer 2" "guarded_coerce ''10'' = Integer 10"
    "guarded_coerce ''11'' = Integer 11" "guarded_coerce ''12'' = Integer 12"
    "guarded_coerce ''20'' = Integer 20" "guarded_coerce ''21'' = Integer 21"
    "guarded_coerce ''22'' = Integer 22"
    by (simp_all add: guarded_coerce_def eval_defs)
  have d: "drained ?sk (?ms @ [?m]) = Some ?sk'"
    by (simp add: call_def Let_def sock_defs parse_response_def split_colon_once_def
        startswith_def split_ws_def is_space_def map_str_to_number_eq g)
  have c: "\<forall>x\<in>set ?ms. \<exists>n>0. pending x n"
    by (simp add: pending_def)
  have z: "pending ?m 0"
    by (simp add: pending_def)
  show ?thesis
    using poll_cycle_drains [OF d c z, of ?p] by simp
qed

lemma get_data_loop_nonzero:
  assumes "call ''GetData'' [] sk = Some (Inr (Fields m), sk')" and "pending m n" and "n \<noteq> 0"
  shows "get_data_loop data sk = get_data_loop (data @ [m]) sk'"
  using assms pending_getitem [OF assms(2)]
  by (simp add: get_data_loop.simps [of data sk] eq_zero_def)

text \<open>
  Claim C4 says that a poll cycle goes on draining while the pending count is greater
  than 0 and stops when it reaches 0. The loop of \<open>get_data\<close> has one exit only, a count
  equal to 0. After a sample whose count is negative, which the documentation of the
  class calls an error that sets the error flag and stops polling, the cycle goes on
  draining: the sample is kept in the batch, the samples that follow are read until a
  count of 0, the batch is handed to the data callback and the error flag stays clear.
\<close>

theorem poll_cycle_negative_count:
  assumes "call ''GetData'' [] sk = Some (Inr (Fields m), sk1)"
    and "pending m n" and "n < 0"
    and "drained sk1 (ms @ [m0]) = Some sk'"
    and "\<forall>x\<in>set ms. \<exists>k>0. pending x k"
    and "pending m0 0"
    and "\<not> p_error p" and "datacb p"
  shows "poll_cycle p sk
         = Some (Inr (), p\<lparr>invoked := invoked p @ [Data_cb (m # ms @ [m0])]\<rparr>, sk')"
proof -
  from assms(3) have "n \<noteq> 0" by simp
  with assms(1,2) have "get_data_loop [] sk = get_data_loop ([] @ [m]) sk1"
    by (rule get_data_loop_nonzero)
  also have "\<dots> = Some (Inr (([] @ [m]) @ ms @ [m0]), sk')"
    using assms(4-6) by (rule get_data_loop_drained)
  finally have "get_data sk = Some (Inr (m # ms @ [m0]), sk')"
    by (simp add: get_data_def)
  with assms(7,8) show ?thesis
    by (simp add: poll_cycle_def)
qed

theorem poll_cycle_negative_count_witness:
  "poll_cycle
     \<lparr>p_interval = Some 1, p_error = False, p_quit = False, p_event = False,
        datacb = True, errcb = True, invoked = []\<rparr>
     \<lparr>recv_data = [''OK: -1 7'' @ [CHR 0x0A], ''OK: 0 1'' @ [CHR 0x0A],
                    ''OK: 3'' @ [CHR 0x0A]], sent = []\<rparr>
   = Some (Inr (),
           \<lparr>p_interval = Some 1, p_error = False, p_quit = False, p_event = False,
              datacb = True, errcb = True,
              invoked = [Data_cb [[Integer (- 1), Integer 7], [Integer 0, Integer 1]]]\<rparr>,
           \<lparr>recv_data = [''OK: 3'' @ [CHR 0x0A]],
              sent = [''call : GetData'' @ [CHR 0x0A], ''call : GetData'' @ [CHR 0x0A]]\<rparr>)"
proof -
  let ?p = "\<lparr>p_interval = Some 1, p_error = False, p_quit = False, p_event = False,
              datacb = True, errcb = True, invoked = []\<rparr>"
  let ?sk = "\<lparr>recv_data = [''OK: -1 7'' @ [CHR 0x0A], ''OK: 0 1'' @ [CHR 0x0A],
                             ''OK: 3'' @ [CHR 0x0A]], sent = []\<rparr>"
  let ?sk1 = "\<lparr>recv_data = [''OK: 0 1'' @ [CHR 0x0A], ''OK: 3'' @ [CHR 0x0A]],
                sent = [''call : GetData'' @ [CHR 0x0A]]\<rparr>"
  let ?sk' = "\<lparr>recv_data = [''OK: 3'' @ [CHR 0x0A]],
                sent = [''call : GetData'' @ [CHR 0x0A], ''call : GetData'' @ [CHR 0x0A]]\<rparr>"
  have g: "guarded_coerce ''-1'' = Integer (- 1)" "guarded_coerce ''7'' = Integer 7"
    "guarded_coerce ''0'' = Integer 0" "guarded_coerce ''1'' = Integer 1"
    by (simp_all add: guarded_coerce_def eval_defs)
  have c: "call ''GetData'' [] ?sk = Some (Inr (Fields [Integer (- 1), Integer 7]), ?sk1)"
    by (simp add: call_def Let_def sock_defs parse_response_def split_colon_once_def
        startswith_def split_ws_def is_space_def map_str_to_number_eq g)
  have n: "pending [Integer (- 1), Integer 7] (- 1)" "(- 1 :: int) < 0"
    by (simp_all add: pending_def)
  have d: "drained ?sk1 ([] @ [[Integer 0, Integer 1]]) = Some ?sk'"
    by (simp add: call_def Let_def sock_defs parse_response_def split_colon_once_def
        startswith_def split_ws_def is_space_def map_str_to_number_eq g)
  have e: "\<forall>x\<in>set ([] :: value list list). \<exists>k>0. pending x k"
    by simp
  have z: "pending [Integer 0, Integer 1] 0"
    by (simp add: pending_def)
  show ?thesis
    using poll_cycle_negative_count [OF c n d e z, of ?p] by simp
qed

section \<open>Failures in a poll cycle and the interval control\<close>

lemma get_data_loop_fail:
  assumes "call ''GetData'' [] sk = Some (Inl (TroughError msg), sk')"
  shows "get_data_loop data sk = Some (Inl TypeError, sk')"
  using assms
  by (simp add: get_data_loop.simps [of data sk] PollDataError_init_def Exception_init_def)

lemma get_data_loop_drained_fail:
  assumes "drained sk ms = Some sk1"
    and "\<forall>x\<in>set ms. \<exists>n>0. pending x n"
    and "call ''GetData'' [] sk1 = Some (Inl (TroughError msg), sk2)"
  shows "get_data_loop data sk = Some (Inl TypeError, sk2)"
  using assms
proof (induction ms arbitrary: data sk)
  case Nil
  then show ?case by (simp add: get_data_loop_fail)
next
  case (Cons x ms)
  from Cons.prems(1) obtain sk' where c: "call ''GetData'' [] sk = Some (Inr (Fields x), sk')"
    and d: "drained sk' ms = Some sk1"
    using drained_Cons [of sk x ms sk1] by auto
  from Cons.prems(2) obtain n where n: "0 < n" "pending x n" by auto
  have "get_data_loop data sk = get_data_loop (data @ [x]) sk'"
    using c n(2) n(1) by (rule get_data_loop_continue)
  also have "\<dots> = Some (Inl TypeError, sk2)"
    using d Cons.prems(2,3) by (intro Cons.IH) auto
  finally show ?case .
qed

text \<open>
  Claim C1 says that a poll cycle in which the drain command fails latches the error
  flag, invokes the error callback once with the message and the partial batch, and
  lets nothing escape. The code does not get there: building the PollDataError raises
  TypeError, which the handler in \<open>run\<close> does not catch. The cycle ends the thread with
  that TypeError, the error flag is still clear and no callback has been invoked.
\<close>

theorem poll_cycle_drain_failure:
  assumes "drained sk ms = Some sk1"
    and "\<forall>x\<in>set ms. \<exists>n>0. pending x n"
    and "call ''GetData'' [] sk1 = Some (Inl (TroughError msg), sk2)"
    and "\<not> p_error p"
  shows "poll_cycle p sk = Some (Inl TypeError, p, sk2)"
  using get_data_loop_drained_fail [OF assms(1-3), of "[]"] assms(4)
  by (simp add: get_data_def poll_cycle_def)

theorem poll_cycle_drain_failure_witness:
  "poll_cycle
     \<lparr>p_interval = Some 1, p_error = False, p_quit = False, p_event = False,
        datacb = True, errcb = True, invoked = []\<rparr>
     \<lparr>recv_data = [''OK: 2 10 20'' @ [CHR 0x0A], ''ERR: busy'' @ [CHR 0x0A]], sent = []\<rparr>
   = Some (Inl TypeError,
           \<lparr>p_interval = Some 1, p_error = False, p_quit = False, p_event = False,
              datacb = True, errcb = True, invoked = []\<rparr>,
           \<lparr>recv_data = [],
              sent = [''call : GetData'' @ [CHR 0x0A], ''call : GetData'' @ [CHR 0x0A]]\<rparr>)"
proof -
  let ?p = "\<lparr>p_interval = Some 1, p_error = False, p_quit = False, p_event = False,
              datacb = True, errcb = True, invoked = []\<rparr>"
  let ?sk = "\<lparr>recv_data = [''OK: 2 10 20'' @ [CHR 0x0A], ''ERR: busy'' @ [CHR 0x0A]], sent = []\<rparr>"
  let ?sk1 = "\<lparr>recv_data = [''ERR: busy'' @ [CHR 0x0A]], sent = [''call : GetData'' @ [CHR 0x0A]]\<rparr>"
  let ?sk2 = "\<lparr>recv_data = [],
                sent = [''call : GetData'' @ [CHR 0x0A], ''call : GetData'' @ [CHR 0x0A]]\<rparr>"
  have g: "guarded_coerce ''2'' = Integer 2" "guarded_coerce ''10'' = Integer 10"
    "guarded_coerce ''20'' = Integer 20"
    by (simp_all add: guarded_coerce_def eval_defs)
  have d: "drained ?sk [[Integer 2, Integer 10, Integer 20]] = Some ?sk1"
    by (simp add: call_def Let_def sock_defs parse_response_def split_colon_once_def
        startswith_def split_ws_def is_space_def map_str_to_number_eq g)
  have c: "\<forall>x\<in>set [[Integer 2, Integer 10, Integer 20]]. \<exists>n>0. pending x n"
    by (simp add: pending_def)
  have f: "call ''GetData'' [] ?sk1 = Some (Inl (TroughError (Raw (''ERR: busy'' @ [CHR 0x0A]))), ?sk2)"
    by (simp add: call_def Let_def sock_defs parse_response_def split_colon_once_def
        startswith_def)
  show ?thesis
    using poll_cycle_drain_failure [OF d c f, of ?p] by simp
qed

text \<open>
  Claim C2 says that assigning the interval stores the new value. The setter only
  compares the new value with the stored one and sets the event when it is shorter; the
  stored interval stays what the constructor was given. Here 0.5 is assigned over 1.
\<close>

theorem set_interval_not_stored:
  "set_interval (Some (1 / 2))
     \<lparr>p_interval = Some 1, p_error = False, p_quit = False, p_event = False,
        datacb = True, errcb = True, invoked = []\<rparr>
   = Inr \<lparr>p_interval = Some 1, p_error = False, p_quit = False, p_event = True,
           datacb = True, errcb = True, invoked = []\<rparr>"
  by (simp add: set_interval_def py_less_def)

section \<open>The wake event of the main loop\<close>

lemma poll_cycle_event:
  "poll_cycle p sk = Some (r, p', sk') \<Longrightarrow> p_event p' = p_event p"
  by (auto simp: poll_cycle_def split: if_splits option.splits sum.splits exn.splits prod.splits)

lemma set_interval_event: "set_interval t p = Inr p' \<Longrightarrow> p_event p \<Longrightarrow> p_event p'"
  by (auto simp: set_interval_def split: sum.splits if_splits)

lemma step_event:
  assumes "p_event (thread_obj s)"
  shows "p_event (thread_obj (step s a))"
proof (cases a)
  case Thread_step
  show ?thesis
  proof (cases "place s")
    case At_cycle
    show ?thesis
    proof (cases "poll_cycle (thread_obj s) (connection s)")
      case None
      with At_cycle Thread_step assms show ?thesis by (simp add: thread_step_def)
    next
      case (Some x)
      obtain r p' sk' where x: "x = (r, p', sk')" by (cases x) auto
      with Some have "p_event p' = p_event (thread_obj s)" by (simp add: poll_cycle_event)
      with At_cycle Thread_step assms Some x show ?thesis by (simp add: thread_step_def)
    qed
  qed (use Thread_step assms in \<open>simp_all add: thread_step_def\<close>)
next
  case Timer_expires
  with assms show ?thesis
    by (simp add: timer_expires_def split: place.splits option.splits)
next
  case (Assign_interval t)
  with assms show ?thesis
    by (auto split: sum.splits dest: set_interval_event)
next
  case (Assign_error v)
  then show ?thesis by (simp add: set_error_def)
next
  case Call_quit
  then show ?thesis by (simp add: quit_def)
qed

lemma run_event: "p_event (thread_obj s) \<Longrightarrow> p_event (thread_obj (run s acts))"
  unfolding run_def by (induction acts arbitrary: s) (simp_all add: step_event)

lemma step_waits_awake:
  assumes "p_event (thread_obj s)" and "\<forall>t. place s \<noteq> In_wait t"
  shows "(waits (step s a) = waits s \<or> waits (step s a) = waits s @ [At_once])
       \<and> (\<forall>t. place (step s a) \<noteq> In_wait t)"
proof (cases a)
  case Thread_step
  show ?thesis
  proof (cases "place s")
    case At_cycle
    with Thread_step show ?thesis
      by (auto simp: thread_step_def split: option.splits sum.splits)
  next
    case (In_wait t)
    with assms(2) show ?thesis by simp
  qed (use Thread_step assms in \<open>simp_all add: thread_step_def\<close>)
next
  case Timer_expires
  with assms show ?thesis
    by (simp add: timer_expires_def split: place.splits option.splits)
next
  case (Assign_interval t)
  with assms show ?thesis by (simp split: sum.splits)
next
  case (Assign_error v)
  with assms show ?thesis by simp
next
  case Call_quit
  with assms show ?thesis by simp
qed

lemma step_waits_in_wait:
  assumes "p_event (thread_obj s)" and "place s = In_wait t"
  shows "(waits (step s a) = waits s \<and> place (step s a) = In_wait t)
       \<or> (waits (step s a) = waits s @ [Woken] \<and> (\<forall>t'. place (step s a) \<noteq> In_wait t'))"
proof (cases a)
  case Thread_step
  with assms show ?thesis by (simp add: thread_step_def)
next
  case Timer_expires
  with assms show ?thesis
    by (simp add: timer_expires_def split: option.splits)
next
  case (Assign_interval t)
  with assms show ?thesis by (simp split: sum.splits)
next
  case (Assign_error v)
  with assms show ?thesis by simp
next
  case Call_quit
  with assms show ?thesis by simp
qed

lemma run_waits_awake:
  assumes "p_event (thread_obj s)" and "\<forall>t. place s \<noteq> In_wait t"
  shows "\<exists>k. waits (run s acts) = waits s @ replicate k At_once"
  using assms
proof (induction acts arbitrary: s)
  case Nil
  have "waits s = waits s @ replicate 0 At_once" by simp
  then show ?case unfolding run_def by (intro exI [of _ 0]) simp
next
  case (Cons a acts)
  have e: "p_event (thread_obj (step s a))"
    using Cons.prems(1) by (rule step_event)
  have w: "(waits (step s a) = waits s \<or> waits (step s a) = waits s @ [At_once])
           \<and> (\<forall>t. place (step s a) \<noteq> In_wait t)"
    using Cons.prems by (rule step_waits_awake)
  then have "\<forall>t. place (step s a) \<noteq> In_wait t" by simp
  with e obtain k where k: "waits (run (step s a) acts) = waits (step s a) @ replicate k At_once"
    using Cons.IH [of "step s a"] by blast
  have r: "run s (a # acts) = run (step s a) acts"
    by (simp add: run_def)
  from w have "waits (step s a) = waits s \<or> waits (step s a) = waits s @ [At_once]" by simp
  then show ?case
  proof
    assume "waits (step s a) = waits s"
    with k r show ?thesis by auto
  next
    assume "waits (step s a) = waits s @ [At_once]"
    with k r have "waits (run s (a # acts)) = waits s @ replicate (Suc k) At_once"
      by simp
    then show ?thesis by blast
  qed
qed

lemma run_waits_any:
  assumes "p_event (thread_obj s)"
  shows "\<exists>k. waits (run s acts) = waits s @ replicate k At_once
           \<or> waits (run s acts) = waits s @ Woken # replicate k At_once"
  using assms
proof (induction acts arbitrary: s)
  case Nil
  have "waits (run s []) = waits s @ replicate 0 At_once" by (simp add: run_def)
  then show ?case by blast
next
  case (Cons a acts)
  have r: "run s (a # acts) = run (step s a) acts"
    by (simp add: run_def)
  have e: "p_event (thread_obj (step s a))"
    using Cons.prems by (rule step_event)
  show ?case
  proof (cases "\<exists>t. place s = In_wait t")
    case False
    then have "\<forall>t. place s \<noteq> In_wait t" by simp
    with Cons.prems show ?thesis using run_waits_awake [of s "a # acts"] by blast
  next
    case True
    then obtain t where t: "place s = In_wait t" ..
    from step_waits_in_wait [OF Cons.prems t, of a] show ?thesis
    proof
      assume "waits (step s a) = waits s \<and> place (step s a) = In_wait t"
      with Cons.IH [OF e] r show ?thesis by simp
    next
      assume b: "waits (step s a) = waits s @ [Woken] \<and> (\<forall>t'. place (step s a) \<noteq> In_wait t')"
      with e obtain k where "waits (run (step s a) acts) = waits (step s a) @ replicate k At_once"
        using run_waits_awake [of "step s a" acts] by blast
      with b r have "waits (run s (a # acts)) = waits s @ Woken # replicate k At_once"
        by simp
      then show ?thesis by blast
    qed
  qed
qed

lemma control_sets_event:
  assumes "a = Call_quit \<or> (\<exists>v. a = Assign_error v)
           \<or> (\<exists>x y. a = Assign_interval (Some x) \<and> p_interval (thread_obj s) = Some y \<and> x < y)"
  shows "p_event (thread_obj (step s a)) \<and> place (step s a) = place s \<and> waits (step s a) = waits s"
  using assms
  by (auto simp: quit_def set_error_def set_interval_def py_less_def)

text \<open>
  Claim C9. Nothing in the polling thread clears its wake event. Once a control has set
  it (an assignment of a shorter interval, any assignment to the error flag, or a call
  of \<open>quit\<close>), it stays set whatever the thread and the controls do afterwards. So no
  later wait of the main loop lasts for the interval: a wait that is in progress when
  the control arrives is woken, and every wait entered afterwards returns at once.
\<close>

theorem event_never_reset:
  assumes "a = Call_quit \<or> (\<exists>v. a = Assign_error v)
           \<or> (\<exists>x y. a = Assign_interval (Some x) \<and> p_interval (thread_obj s) = Some y \<and> x < y)"
  shows "p_event (thread_obj (run (step s a) acts))
       \<and> (\<exists>k. waits (run (step s a) acts) = waits s @ replicate k At_once
              \<or> ((\<exists>t. place s = In_wait t)
                  \<and> waits (run (step s a) acts) = waits s @ Woken # replicate k At_once))"
proof -
  from assms have c: "p_event (thread_obj (step s a))" "place (step s a) = place s"
    "waits (step s a) = waits s"
    using control_sets_event [of a s] by simp_all
  have "p_event (thread_obj (run (step s a) acts))"
    using c(1) by (rule run_event)
  moreover have "\<exists>k. waits (run (step s a) acts) = waits s @ replicate k At_once
              \<or> ((\<exists>t. place s = In_wait t)
                  \<and> waits (run (step s a) acts) = waits s @ Woken # replicate k At_once)"
  proof (cases "\<exists>t. place s = In_wait t")
    case True
    with run_waits_any [OF c(1), of acts] c(3) show ?thesis by simp
  next
    case False
    with c(2) have "\<forall>t. place (step s a) \<noteq> In_wait t" by simp
    with run_waits_awake [OF c(1), of acts] c(3) show ?thesis by auto
  qed
  ultimately show ?thesis by blast
qed

theorem event_never_reset_witness:
  "p_event (thread_obj
     (run (step \<lparr>thread_obj = \<lparr>p_interval = Some 1, p_error = False, p_quit = False,
                                 p_event = False, datacb = True, errcb = True, invoked = []\<rparr>,
                  connection = \<lparr>recv_data = [''OK: 0 5'' @ [CHR 0x0A]], sent = []\<rparr>,
                  place = In_wait (Some 1), waits = []\<rparr>
                (Assign_interval (Some (1 / 2))))
          [Thread_step, Thread_step, Thread_step, Thread_step]))
   \<and> waits
     (run (step \<lparr>thread_obj = \<lparr>p_interval = Some 1, p_error = False, p_quit = False,
                                 p_event = False, datacb = True, errcb = True, invoked = []\<rparr>,
                  connection = \<lparr>recv_data = [''OK: 0 5'' @ [CHR 0x0A]], sent = []\<rparr>,
                  place = In_wait (Some 1), waits = []\<rparr>
                (Assign_interval (Some (1 / 2))))
          [Thread_step, Thread_step, Thread_step, Thread_step])
     = [Woken, At_once]"
proof -
  let ?s = "\<lparr>thread_obj = \<lparr>p_interval = Some 1, p_error = False, p_quit = False,
                             p_event = False, datacb = True, errcb = True, invoked = []\<rparr>,
              connection = \<lparr>recv_data = [''OK: 0 5'' @ [CHR 0x0A]], sent = []\<rparr>,
              place = In_wait (Some 1), waits = []\<rparr>"
  let ?a = "Assign_interval (Some (1 / 2))"
  let ?acts = "[Thread_step, Thread_step, Thread_step, Thread_step]"
  have h: "?a = Call_quit \<or> (\<exists>v. ?a = Assign_error v)
           \<or> (\<exists>x y. ?a = Assign_interval (Some x) \<and> p_interval (thread_obj ?s) = Some y \<and> x < y)"
    by (intro disjI2 exI [of _ "1 / 2"] exI [of _ 1]) simp
  have g: "guarded_coerce ''0'' = Integer 0" "guarded_coerce ''5'' = Integer 5"
    by (simp_all add: guarded_coerce_def eval_defs)
  have c: "call ''GetData'' [] \<lparr>recv_data = [''OK: 0 5'' @ [CHR 0x0A]], sent = []\<rparr>
           = Some (Inr (Fields [Integer 0, Integer 5]),
                   \<lparr>recv_data = [], sent = [''call : GetData'' @ [CHR 0x0A]]\<rparr>)"
    by (simp add: call_def Let_def sock_defs parse_response_def split_colon_once_def
        startswith_def split_ws_def is_space_def map_str_to_number_eq g)
  have d: "get_data \<lparr>recv_data = [''OK: 0 5'' @ [CHR 0x0A]], sent = []\<rparr>
           = Some (Inr [[Integer 0, Integer 5]],
                   \<lparr>recv_data = [], sent = [''call : GetData'' @ [CHR 0x0A]]\<rparr>)"
    unfolding get_data_def using get_data_loop_stop [OF c, of "[]"] by (simp add: pending_def)
  have w: "waits (run (step ?s ?a) ?acts) = [Woken, At_once]"
    by (simp add: run_def set_interval_def py_less_def thread_step_def poll_cycle_def
        d [simplified])
  from event_never_reset [OF h, of ?acts] have "p_event (thread_obj (run (step ?s ?a) ?acts))"
    by blast
  with w show ?thesis by blast
qed

end
